theory Spec2Isabelle
  imports Main "HOL-Library.Word" "HOL-Library.Multiset" "HOL-Library.Product_Lexorder"
begin

section \<open>JavaScript values used by the analyzer\<close>

text \<open>
  A \<open>Uint8Array\<close> is a list of bytes. The text produced by \<open>TextDecoder.decode\<close> is a
  JavaScript string, a sequence of UTF-16 code units; generated columns index code units.
  Module ids and file names are JavaScript strings that the code only compares and
  concatenates; they are modelled as HOL strings.
\<close>

type_synonym bytes = "8 word list"
type_synonym utf16 = "16 word list"

text \<open>
  \<open>String.prototype.substring\<close>: both indices are clamped to \<open>[0, length]\<close> and swapped
  when the first is the larger one. With one argument the end is the length.
\<close>

definition clampIndex :: "int \<Rightarrow> nat \<Rightarrow> nat" where
  "clampIndex i len = nat (min (max i 0) (int len))"

definition substring_from :: "'a list \<Rightarrow> int \<Rightarrow> 'a list" where
  "substring_from s start = drop (clampIndex start (length s)) s"

definition substring :: "'a list \<Rightarrow> int \<Rightarrow> int \<Rightarrow> 'a list" where
  "substring s start stop =
     (let finalStart = clampIndex start (length s);
          finalEnd = clampIndex stop (length s);
          lo = min finalStart finalEnd;
          hi = max finalStart finalEnd
      in take (hi - lo) (drop lo s))"

text \<open>
  \<open>TypedArray.prototype.subarray(begin, end)\<close> for non-negative indices: the view from
  \<open>begin\<close> up to \<open>end\<close> (exclusive), empty when \<open>end \<le> begin\<close>, cut at the array's length.
\<close>

definition subarray :: "'a list \<Rightarrow> nat \<Rightarrow> nat \<Rightarrow> 'a list" where
  "subarray bs b e = take (e - b) (drop b bs)"

definition subarray_from :: "'a list \<Rightarrow> nat \<Rightarrow> 'a list" where
  "subarray_from bs b = drop b bs"

text \<open>
  An ordinary object used as a dictionary is the list of its own properties in creation
  order. \<open>push_entry\<close> is the idiom
  \<^verbatim>\<open>if (!(k in acc)) acc[k] = []; acc[k].push(v)\<close>
  and \<open>for_in\<close> is the enumeration order of \<^verbatim>\<open>for (const k in obj)\<close>: the keys that are
  array indices in ascending numeric order, then the other keys in creation order. Its
  first argument tells which keys are array indices, and their numeric values.
  \<open>set_property\<close> is the assignment \<^verbatim>\<open>obj[k] = v\<close> to an own property.
\<close>

fun push_entry :: "'k \<Rightarrow> 'v \<Rightarrow> ('k \<times> 'v list) list \<Rightarrow> ('k \<times> 'v list) list" where
  "push_entry k v [] = [(k, [v])]"
| "push_entry k v ((k', vs) # rest) =
     (if k = k' then (k', vs @ [v]) # rest else (k', vs) # push_entry k v rest)"

fun set_property :: "'k \<Rightarrow> 'v \<Rightarrow> ('k \<times> 'v) list \<Rightarrow> ('k \<times> 'v) list" where
  "set_property k v [] = [(k, v)]"
| "set_property k v ((k', v') # rest) =
     (if k = k' then (k', v) # rest else (k', v') # set_property k v rest)"

definition for_in :: "('k \<Rightarrow> nat option) \<Rightarrow> ('k \<times> 'v) list \<Rightarrow> ('k \<times> 'v) list" where
  "for_in idx obj =
     sort_key (\<lambda>p. the (idx (fst p))) (filter (\<lambda>p. idx (fst p) \<noteq> None) obj)
       @ filter (\<lambda>p. idx (fst p) = None) obj"

text \<open>
  A numeric key \<open>n\<close> is the property name of its decimal form, an array index when
  \<open>n < 2^32 - 1\<close>. (The decimal form is exact below \<open>10^21\<close>; larger line numbers are
  outside the model.)
\<close>

definition line_index :: "nat \<Rightarrow> nat option" where
  "line_index n = (if n < 4294967295 then Some n else None)"

text \<open>
  A string key is an array index when it is the canonical decimal form of a number below
  \<open>2^32 - 1\<close>: digits only, no leading zero except for \<open>0\<close> itself.
\<close>

definition is_digit :: "char \<Rightarrow> bool" where
  "is_digit c = (48 \<le> (of_char c :: nat) \<and> (of_char c :: nat) \<le> 57)"

definition decimal_value :: "string \<Rightarrow> nat" where
  "decimal_value s = fold (\<lambda>c acc. acc * 10 + ((of_char c :: nat) - 48)) s 0"

definition array_index :: "string \<Rightarrow> nat option" where
  "array_index s =
     (if s = [] \<or> \<not> list_all is_digit s \<or> (1 < length s \<and> hd s = CHR ''0'') then None
      else if decimal_value s < 4294967295 then Some (decimal_value s) else None)"

section \<open>Source-map helpers\<close>

subsection \<open>convertSourcemapToContents\<close>

text \<open>
  The consumer of the \<open>source-map\<close> package is given by what the function reads of it: the
  list \<open>sources\<close> and \<open>sourceContentFor(source, true)\<close>, which returns \<open>null\<close> (\<open>None\<close>)
  for a source without embedded content instead of throwing.
\<close>

record ChunkMetadata =
  chunk_id :: string
  chunk_code :: string

definition convertSourcemapToContents ::
  "string list \<Rightarrow> (string \<Rightarrow> string option) \<Rightarrow> ChunkMetadata list" where
  "convertSourcemapToContents sources sourceContentFor =
     fold (\<lambda>src acc.
             (case sourceContentFor src of
                None \<Rightarrow> acc
              | Some s \<Rightarrow> if s \<noteq> [] then acc @ [\<lparr>chunk_id = src, chunk_code = s\<rparr>] else acc))
          sources []"

subsection \<open>splitBytesByNewLine\<close>

function splitLoop :: "bytes \<Rightarrow> nat \<Rightarrow> nat \<Rightarrow> bytes list \<Rightarrow> bytes list \<times> nat" where
  "splitLoop bs i start result =
     (if i < length bs then
        (if bs ! i = 0x0A
         then splitLoop bs (i + 1) (i + 1) (result @ [subarray bs start i])
         else splitLoop bs (i + 1) start result)
      else (result, start))"
  by pat_completeness auto
termination
  by (relation "measure (\<lambda>(bs, i, start, result). length bs - i)") auto

declare splitLoop.simps [simp del]

definition splitBytesByNewLine :: "bytes \<Rightarrow> bytes list" where
  "splitBytesByNewLine bs =
     (case splitLoop bs 0 0 [] of
        (result, start) \<Rightarrow>
          if start < length bs then result @ [subarray_from bs start] else result)"

subsection \<open>getStringFromSerializeMappings\<close>

text \<open>
  A mapping as \<open>eachMapping\<close> delivers it (\<open>MappingItem\<close>), with the column span
  \<open>lastGeneratedColumn: number | null\<close> of the type \<open>Loc\<close>. Lines are 1-based, columns
  0-based. The code reads \<open>source\<close>, \<open>generatedLine\<close>, \<open>generatedColumn\<close> and
  \<open>lastGeneratedColumn\<close> only.
\<close>

record Loc =
  source :: "string option"
  generatedLine :: nat
  generatedColumn :: int
  originalLine :: "nat option"
  originalColumn :: "nat option"
  name :: "string option"
  lastGeneratedColumn :: "int option"

definition maapingWithLine :: "Loc list \<Rightarrow> (nat \<times> Loc list) list" where
  "maapingWithLine mappings = fold (\<lambda>cur acc. push_entry (generatedLine cur) cur acc) mappings []"

text \<open>
  One turn of the inner loop: what entry \<open>currentMaaping\<close> appends to \<open>s\<close>, given the
  decoded line, the number \<open>cap\<close> of entries of the line and the entry after it, if any.
\<close>

definition entryText :: "utf16 \<Rightarrow> nat \<Rightarrow> Loc \<Rightarrow> Loc option \<Rightarrow> utf16" where
  "entryText runes cap currentMaaping nextMapping =
     (if cap = 1 \<or> lastGeneratedColumn currentMaaping = None
      then substring_from runes (generatedColumn currentMaaping)
      else (case lastGeneratedColumn currentMaaping of
              None \<Rightarrow> []
            | Some lastCol \<Rightarrow>
                (let stop = (if Some (lastCol + 1) = map_option generatedColumn nextMapping
                             then (case nextMapping of
                                     Some n \<Rightarrow> generatedColumn n
                                   | None \<Rightarrow> lastCol)
                             else lastCol)
                 in substring runes (generatedColumn currentMaaping) stop)))"

fun entriesLoop :: "utf16 \<Rightarrow> nat \<Rightarrow> Loc list \<Rightarrow> utf16 \<Rightarrow> utf16" where
  "entriesLoop runes cap [] s = s"
| "entriesLoop runes cap (cur # rest) s =
     entriesLoop runes cap rest
       (s @ entryText runes cap cur (case rest of [] \<Rightarrow> None | n # _ \<Rightarrow> Some n))"

text \<open>
  The body of the outer loop for one key: \<open>l = parseInt(line) - 1\<close>, and \<open>bytes[l]\<close> is
  a (truthy) array exactly when \<open>l\<close> is an index of \<open>bytes\<close>.
\<close>

definition lineBody :: "(bytes \<Rightarrow> utf16) \<Rightarrow> bytes list \<Rightarrow> nat \<times> Loc list \<Rightarrow> utf16 \<Rightarrow> utf16" where
  "lineBody decode bs entry s =
     (let l = int (fst entry) - 1
      in if 0 \<le> l \<and> l < int (length bs)
         then entriesLoop (decode (bs ! nat l)) (length (snd entry)) (snd entry) s
         else s)"

definition getStringFromSerializeMappings ::
  "(bytes \<Rightarrow> utf16) \<Rightarrow> bytes list \<Rightarrow> Loc list \<Rightarrow> utf16" where
  "getStringFromSerializeMappings decode bs mappings =
     fold (lineBody decode bs) (for_in line_index (maapingWithLine mappings)) []"

subsection \<open>getSourceMappings\<close>

text \<open>
  The parsed source map is the sequence of mappings that \<open>eachMapping\<close> passes to the
  callback. \<open>if (mapping.source)\<close> holds for a source that is neither \<open>null\<close> nor empty.
\<close>

definition eachMappingCallback ::
  "(string \<Rightarrow> string) \<Rightarrow> Loc \<Rightarrow> (string \<times> Loc list) list \<Rightarrow> (string \<times> Loc list) list" where
  "eachMappingCallback formatter mapping mappingWithId =
     (case source mapping of
        None \<Rightarrow> mappingWithId
      | Some src \<Rightarrow>
          if src \<noteq> [] then push_entry (formatter src) mapping mappingWithId
          else mappingWithId)"

definition mappingWithId :: "(string \<Rightarrow> string) \<Rightarrow> Loc list \<Rightarrow> (string \<times> Loc list) list" where
  "mappingWithId formatter ms = fold (eachMappingCallback formatter) ms []"

text \<open>
  \<open>hints\<close> is an object literal, so it inherits from \<open>Object.prototype\<close>: assigning a
  string to \<open>hints['__proto__']\<close> runs the inherited setter, which ignores it.
\<close>

definition assignHint :: "string \<Rightarrow> utf16 \<Rightarrow> (string \<times> utf16) list \<Rightarrow> (string \<times> utf16) list" where
  "assignHint k v hints = (if k = ''__proto__'' then hints else set_property k v hints)"

definition moduleBody ::
  "(bytes \<Rightarrow> utf16) \<Rightarrow> bytes list \<Rightarrow> string \<times> Loc list \<Rightarrow> (string \<times> utf16) list
     \<Rightarrow> (string \<times> utf16) list" where
  "moduleBody decode bs entry hints =
     (let mappings = sort_key generatedColumn (snd entry)
      in if 0 < length mappings
         then assignHint (fst entry) (getStringFromSerializeMappings decode bs mappings) hints
         else hints)"

definition getSourceMappings ::
  "(bytes \<Rightarrow> utf16) \<Rightarrow> bytes \<Rightarrow> Loc list \<Rightarrow> (string \<Rightarrow> string) \<Rightarrow> (string \<times> utf16) list" where
  "getSourceMappings decode code ms formatter =
     (let bs = splitBytesByNewLine code
      in fold (moduleBody decode bs) (for_in array_index (mappingWithId formatter ms)) [])"

section \<open>The plugin's closeBundle hook\<close>

text \<open>
  The options the hook reads. \<open>None\<close> stands for a key that is absent from the options
  object (\<^verbatim>\<open>'fileName' in opts\<close> is false); \<open>analyzerMode\<close> has the default \<open>'server'\<close>
  merged in.
\<close>

datatype analyzerMode = Server | Static | Json

datatype analyzerPort = Auto | Port nat

record AnalyzerPluginOptions =
  analyzerMode :: analyzerMode
  fileName :: "string option"
  openAnalyzer :: "bool option"
  analyzerPort :: "analyzerPort option"

text \<open>
  The state the hook shares with later runs in the same process: the module-level counter
  \<open>callCount\<close>, the paths that exist on disk (what \<open>fs.existsSync\<close> sees) and the paths of
  the writes that have been started and not awaited. In json mode the hook returns the
  promise of \<open>fsp.writeFile\<close>, so the file is on disk when the awaited hook returns; in static
  mode the promise is dropped, and the file reaches the disk at some later time:
  \<open>writeCompleted\<close> is that event.
\<close>

record processState =
  callCount :: int
  files :: "string set"
  pending :: "string set"

definition writeCompleted :: "string \<Rightarrow> processState \<Rightarrow> processState" where
  "writeCompleted p st = st\<lparr>files := insert p (files st), pending := pending st - {p}\<rparr>"

text \<open>The decimal form of an integer, as a template literal inserts it.\<close>

definition digitChar :: "nat \<Rightarrow> char" where
  "digitChar d = ''0123456789'' ! d"

fun digitsOf :: "nat \<Rightarrow> string" where
  "digitsOf n = (if n < 10 then [digitChar n] else digitsOf (n div 10) @ [digitChar (n mod 10)])"

declare digitsOf.simps [simp del]

definition numberToString :: "int \<Rightarrow> string" where
  "numberToString i = (if i < 0 then CHR ''-'' # digitsOf (nat (- i)) else digitsOf (nat i))"

text \<open>
  The part under \<^verbatim>\<open>if (preferLivingServer)\<close>: it yields the port asked of \<open>createServer\<close>
  (\<open>0\<close> for \<open>'auto'\<close>) and leaves the counter as it found it.
\<close>

definition livingServer :: "AnalyzerPluginOptions \<Rightarrow> processState \<Rightarrow> int \<times> processState" where
  "livingServer opts st =
     (let st1 = st\<lparr>callCount := callCount st - 1\<rparr>;
          port = (case analyzerPort opts of
                    Some Auto \<Rightarrow> 0
                  | Some (Port n) \<Rightarrow> int n
                  | None \<Rightarrow> 8888 + callCount st1)
      in (port, st1\<lparr>callCount := callCount st1 + 1\<rparr>))"

text \<open>
  \<open>closeBundle\<close>, with \<open>path.join\<close> as a parameter: the result is the path written, if
  any, the port of the server started, if any, and the new state. The summary line that
  the hook may log and the content of the report are left out.
\<close>

definition closeBundle ::
  "(string \<Rightarrow> string \<Rightarrow> string) \<Rightarrow> string \<Rightarrow> AnalyzerPluginOptions \<Rightarrow> processState
     \<Rightarrow> (string option \<times> int option) \<times> processState" where
  "closeBundle pathJoin defaultWd opts st =
     (let preferLivingServer = (analyzerMode opts = Server \<or> analyzerMode opts = Static);
          preferSilent = (analyzerMode opts = Json \<or> analyzerMode opts = Static);
          st1 = st\<lparr>callCount := callCount st + 1\<rparr>
      in if preferSilent then
           (let output = (case fileName opts of Some f \<Rightarrow> f | None \<Rightarrow> ''stats'');
                ext = (if analyzerMode opts = Json then ''json'' else ''html'');
                p0 = pathJoin defaultWd (output @ ''.'' @ ext);
                p = (if p0 \<in> files st1
                     then pathJoin defaultWd
                            (output @ ''-'' @ numberToString (callCount st1) @ ''.'' @ ext)
                     else p0);
                awaited = st1\<lparr>files := insert p (files st1)\<rparr>;
                started = st1\<lparr>pending := insert p (pending st1)\<rparr>
            in if analyzerMode opts = Json then ((Some p, None), awaited)
               else if analyzerMode opts = Static \<and> openAnalyzer opts \<noteq> Some True
               then ((Some p, None), started)
               else if preferLivingServer
               then (case livingServer opts started of
                       (port, st3) \<Rightarrow> ((Some p, Some port), st3))
               else ((Some p, None), started))
         else if preferLivingServer
         then (case livingServer opts st1 of (port, st3) \<Rightarrow> ((None, Some port), st3))
         else ((None, None), st1))"

section \<open>Vocabulary of the statements\<close>

text \<open>Joining segments with a single line feed between consecutive segments.\<close>

fun joinLines :: "bytes list \<Rightarrow> bytes" where
  "joinLines [] = []"
| "joinLines [seg] = seg"
| "joinLines (seg # next # rest) = seg @ 0x0A # joinLines (next # rest)"

text \<open>
  The split as a recursion over the bytes that are still to be read, with the segment
  under construction as accumulator; \<open>splitLoop\<close> is shown to compute it.
\<close>

fun splitFrom :: "bytes \<Rightarrow> bytes \<Rightarrow> bytes list" where
  "splitFrom cur [] = (if cur = [] then [] else [cur])"
| "splitFrom cur (b # bs) = (if b = 0x0A then cur # splitFrom [] bs else splitFrom (cur @ [b]) bs)"

text \<open>
  The module a mapping is attributed to, if any, and the list of the mapping entries of a
  module, in the order of the source map.
\<close>

definition moduleKey :: "(string \<Rightarrow> string) \<Rightarrow> Loc \<Rightarrow> string option" where
  "moduleKey formatter m =
     (case source m of
        None \<Rightarrow> None
      | Some src \<Rightarrow> if src \<noteq> [] then Some (formatter src) else None)"

definition entriesOf :: "(string \<Rightarrow> string) \<Rightarrow> Loc list \<Rightarrow> string \<Rightarrow> Loc list" where
  "entriesOf formatter ms k = filter (\<lambda>m. moduleKey formatter m = Some k) ms"

text \<open>Concrete data: ASCII text as bytes and as code units, and a mapping of a module.\<close>

definition bytes_of :: "string \<Rightarrow> bytes" where
  "bytes_of s = map (\<lambda>c. of_nat (of_char c)) s"

definition str :: "string \<Rightarrow> utf16" where
  "str s = map (\<lambda>c. of_nat (of_char c)) s"

text \<open>On ASCII bytes (below \<open>0x80\<close>) \<open>TextDecoder.decode\<close> yields the code unit of each byte.\<close>

definition decode_ascii :: "bytes \<Rightarrow> utf16" where
  "decode_ascii bs = map ucast bs"

definition loc :: "string \<Rightarrow> nat \<Rightarrow> int \<Rightarrow> int option \<Rightarrow> Loc" where
  "loc src l c e =
     \<lparr>source = Some src, generatedLine = l, generatedColumn = c, originalLine = None,
      originalColumn = None, name = None, lastGeneratedColumn = e\<rparr>"

text \<open>
  The trace of the two nested loops of \<open>getStringFromSerializeMappings\<close>: the entries in
  the order in which the loops visit them, each with the text that its turn appends to
  \<open>s\<close> (nothing for an entry whose line the artifact does not have).
\<close>

fun entryContribs :: "utf16 \<Rightarrow> nat \<Rightarrow> Loc list \<Rightarrow> (Loc \<times> utf16) list" where
  "entryContribs runes cap [] = []"
| "entryContribs runes cap (cur # rest) =
     (cur, entryText runes cap cur (case rest of [] \<Rightarrow> None | n # _ \<Rightarrow> Some n))
       # entryContribs runes cap rest"

definition lineContribs :: "(bytes \<Rightarrow> utf16) \<Rightarrow> bytes list \<Rightarrow> nat \<times> Loc list \<Rightarrow> (Loc \<times> utf16) list" where
  "lineContribs decode bs entry =
     (let l = int (fst entry) - 1
      in if 0 \<le> l \<and> l < int (length bs)
         then entryContribs (decode (bs ! nat l)) (length (snd entry)) (snd entry)
         else map (\<lambda>m. (m, [])) (snd entry))"

definition contributions :: "(bytes \<Rightarrow> utf16) \<Rightarrow> bytes list \<Rightarrow> Loc list \<Rightarrow> (Loc \<times> utf16) list" where
  "contributions decode bs mappings =
     concat (map (lineContribs decode bs) (for_in line_index (maapingWithLine mappings)))"

text \<open>The position of an entry, ordered by line and then by column.\<close>

definition lineColumn :: "Loc \<Rightarrow> nat \<times> int" where
  "lineColumn m = (generatedLine m, generatedColumn m)"





text \<open>
  \<open>path.join\<close> on a directory and a plain file name (no separator, no dot segment), on a
  POSIX system.
\<close>

definition joinPlain :: "string \<Rightarrow> string \<Rightarrow> string" where
  "joinPlain dir file = dir @ ''/'' @ file"

section \<open>convertSourcemapToContents\<close>

lemma convert_fold:
  "fold (\<lambda>src acc. (case content src of None \<Rightarrow> acc
           | Some s \<Rightarrow> if s \<noteq> [] then acc @ [\<lparr>chunk_id = src, chunk_code = s\<rparr>] else acc)) sources acc
   = acc @ map (\<lambda>src. \<lparr>chunk_id = src, chunk_code = the (content src)\<rparr>)
             (filter (\<lambda>src. content src \<noteq> None \<and> content src \<noteq> Some []) sources)"
  by (induction sources arbitrary: acc) (auto split: option.splits)

text \<open>
  Claim C10. \<open>convertSourcemapToContents\<close> returns, in the order of the source map's list of
  sources, one record for each listed source whose embedded content is present and not
  empty, with the source as id and that content as code; a source without content is left
  out, and no error arises.
\<close>

theorem convertSourcemapToContents_present:
  "convertSourcemapToContents sources content
   = map (\<lambda>src. \<lparr>chunk_id = src, chunk_code = the (content src)\<rparr>)
       (filter (\<lambda>src. content src \<noteq> None \<and> content src \<noteq> Some []) sources)"
  by (simp add: convertSourcemapToContents_def convert_fold)

theorem convertSourcemapToContents_present_witness:
  "convertSourcemapToContents [''a.ts'', ''b.ts'', ''c.ts'', ''d.ts'']
     [''a.ts'' \<mapsto> ''let a'', ''c.ts'' \<mapsto> '''', ''d.ts'' \<mapsto> ''d()'']
   = [\<lparr>chunk_id = ''a.ts'', chunk_code = ''let a''\<rparr>, \<lparr>chunk_id = ''d.ts'', chunk_code = ''d()''\<rparr>]"
  using convertSourcemapToContents_present
    [of "[''a.ts'', ''b.ts'', ''c.ts'', ''d.ts'']"
        "[''a.ts'' \<mapsto> ''let a'', ''c.ts'' \<mapsto> '''', ''d.ts'' \<mapsto> ''d()'']"]
  by simp

section \<open>splitBytesByNewLine\<close>

lemma subarray_snoc:
  "start \<le> i \<Longrightarrow> i < length bs \<Longrightarrow> subarray bs start (Suc i) = subarray bs start i @ [bs ! i]"
  by (simp add: subarray_def Suc_diff_le take_Suc_conv_app_nth)

lemma splitLoop_splitFrom:
  "start \<le> i \<Longrightarrow> i \<le> length bs \<Longrightarrow>
   (case splitLoop bs i start result of
      (r, s) \<Rightarrow> if s < length bs then r @ [subarray_from bs s] else r)
   = result @ splitFrom (subarray bs start i) (drop i bs)"
proof (induction bs i start result rule: splitLoop.induct)
  case (1 bs i start result)
  show ?case
  proof (cases "i < length bs")
    case False
    with "1.prems" have "i = length bs" by simp
    then show ?thesis
      by (subst splitLoop.simps) (auto simp: subarray_def subarray_from_def)
  next
    case True
    then have d: "drop i bs = bs ! i # drop (Suc i) bs"
      by (simp add: Cons_nth_drop_Suc)
    show ?thesis
    proof (cases "bs ! i = 0x0A")
      case nl: True
      have "subarray bs (i + 1) (i + 1) = []" by (simp add: subarray_def)
      with "1.IH"(1) [OF True nl] True nl d show ?thesis
        by (subst splitLoop.simps) simp
    next
      case nl: False
      from "1.IH"(2) [OF True nl] "1.prems" True nl d show ?thesis
        by (subst splitLoop.simps) (simp add: subarray_snoc)
    qed
  qed
qed

lemma splitBytesByNewLine_splitFrom: "splitBytesByNewLine bs = splitFrom [] bs"
  using splitLoop_splitFrom [of 0 0 bs "[]"]
  by (simp add: splitBytesByNewLine_def subarray_def)

lemma splitFrom_Nil_iff: "splitFrom cur bs = [] \<longleftrightarrow> cur = [] \<and> bs = []"
  by (induction bs arbitrary: cur) auto

lemma splitFrom_no_newline:
  "0x0A \<notin> set cur \<Longrightarrow> seg \<in> set (splitFrom cur bs) \<Longrightarrow> 0x0A \<notin> set seg"
proof (induction bs arbitrary: cur)
  case Nil
  then show ?case by (auto split: if_splits)
next
  case (Cons b bs)
  show ?case
  proof (cases "b = 0x0A")
    case True
    with Cons.prems have "seg = cur \<or> seg \<in> set (splitFrom [] bs)" by simp
    then show ?thesis using Cons.prems(1) Cons.IH [of "[]"] by auto
  next
    case False
    with Cons.prems have "seg \<in> set (splitFrom (cur @ [b]) bs)" by simp
    moreover from False Cons.prems(1) have "0x0A \<notin> set (cur @ [b])" by auto
    ultimately show ?thesis by (rule Cons.IH [rotated])
  qed
qed

lemma joinLines_Cons: "joinLines (seg # segs) = (if segs = [] then seg else seg @ 0x0A # joinLines segs)"
  by (cases segs) auto

lemma splitFrom_join:
  "cur @ bs = joinLines (splitFrom cur bs) @ (if bs \<noteq> [] \<and> last bs = 0x0A then [0x0A] else [])"
proof (induction bs arbitrary: cur)
  case Nil
  then show ?case by simp
next
  case (Cons b bs)
  show ?case
  proof (cases "b = 0x0A")
    case True
    then show ?thesis
      using Cons.IH [of "[]"] by (auto simp: joinLines_Cons splitFrom_Nil_iff)
  next
    case False
    then show ?thesis
      using Cons.IH [of "cur @ [b]"] by auto
  qed
qed

section \<open>Objects as dictionaries\<close>

lemma push_entry_keys:
  "map fst (push_entry k v acc) = (if k \<in> fst ` set acc then map fst acc else map fst acc @ [k])"
proof (induction acc)
  case Nil
  then show ?case by simp
next
  case (Cons a acc)
  then show ?case by (cases a) (simp add: image_iff)
qed

lemma push_entry_distinct:
  "distinct (map fst acc) \<Longrightarrow> distinct (map fst (push_entry k v acc))"
  by (simp add: push_entry_keys)

lemma push_entry_map_of:
  "map_of (push_entry k v acc) =
   (map_of acc)(k \<mapsto> (case map_of acc k of None \<Rightarrow> [v] | Some vs \<Rightarrow> vs @ [v]))"
  by (induction acc) (auto simp: fun_eq_iff)

lemma fold_push_distinct:
  "distinct (map fst acc) \<Longrightarrow> distinct (map fst (fold (\<lambda>x. push_entry (kf x) x) xs acc))"
  by (induction xs arbitrary: acc) (simp_all add: push_entry_distinct)

lemma fold_push_map_of:
  "map_of (fold (\<lambda>x. push_entry (kf x) x) xs acc) k =
   (case map_of acc k of
      None \<Rightarrow> (if filter (\<lambda>x. kf x = k) xs = [] then None else Some (filter (\<lambda>x. kf x = k) xs))
    | Some vs \<Rightarrow> Some (vs @ filter (\<lambda>x. kf x = k) xs))"
  by (induction xs arbitrary: acc) (auto simp: push_entry_map_of split: option.splits)

lemma fold_push_groups:
  assumes "(k, vs) \<in> set (fold (\<lambda>x. push_entry (kf x) x) xs [])"
  shows "vs = filter (\<lambda>x. kf x = k) xs \<and> vs \<noteq> []"
proof -
  have "distinct (map fst (fold (\<lambda>x. push_entry (kf x) x) xs []))"
    by (rule fold_push_distinct) simp
  with assms have "map_of (fold (\<lambda>x. push_entry (kf x) x) xs []) k = Some vs"
    by simp
  then show ?thesis
    by (simp add: fold_push_map_of split: if_splits)
qed

lemma filter_push_entry:
  "filter (\<lambda>p. Q (fst p)) (push_entry k v acc) =
   (if Q k then push_entry k v (filter (\<lambda>p. Q (fst p)) acc) else filter (\<lambda>p. Q (fst p)) acc)"
  by (induction acc) auto

lemma fold_push_filter:
  "filter (\<lambda>p. Q (fst p)) (fold (\<lambda>x. push_entry (kf x) x) xs acc)
   = fold (\<lambda>x. push_entry (kf x) x) (filter (\<lambda>x. Q (kf x)) xs) (filter (\<lambda>p. Q (fst p)) acc)"
  by (induction xs arbitrary: acc) (simp_all add: filter_push_entry)

lemma mappingWithId_fold:
  "fold (eachMappingCallback formatter) ms acc
   = fold (\<lambda>m. push_entry (the (moduleKey formatter m)) m)
       (filter (\<lambda>m. moduleKey formatter m \<noteq> None) ms) acc"
  by (induction ms arbitrary: acc)
     (auto simp: eachMappingCallback_def moduleKey_def split: option.splits)

lemma mappingWithId_groups:
  assumes "(k, vs) \<in> set (mappingWithId formatter ms)"
  shows "vs = entriesOf formatter ms k \<and> vs \<noteq> []"
proof -
  from assms have "(k, vs) \<in> set (fold (\<lambda>m. push_entry (the (moduleKey formatter m)) m)
       (filter (\<lambda>m. moduleKey formatter m \<noteq> None) ms) [])"
    unfolding mappingWithId_def mappingWithId_fold .
  then have "vs = filter (\<lambda>x. the (moduleKey formatter x) = k) (filter (\<lambda>m. moduleKey formatter m \<noteq> None) ms)
        \<and> vs \<noteq> []"
    by (rule fold_push_groups)
  moreover have "filter (\<lambda>x. the (moduleKey formatter x) = k) (filter (\<lambda>m. moduleKey formatter m \<noteq> None) ms)
      = entriesOf formatter ms k"
    unfolding entriesOf_def filter_filter by (rule filter_cong) auto
  ultimately show ?thesis by auto
qed

lemma set_for_in: "set (for_in idx obj) = set obj"
  by (auto simp: for_in_def)

lemma set_property_mem:
  "(k, v) \<in> set (set_property k' v' h) \<Longrightarrow> (k, v) \<in> set h \<or> (k = k' \<and> v = v')"
  by (induction h) (auto split: if_splits)

lemma fold_moduleBody_mem:
  "(k, v) \<in> set (fold (moduleBody decode bs) xs hints) \<Longrightarrow>
   (k, v) \<in> set hints \<or>
   (\<exists>m. (k, m) \<in> set xs \<and> v = getStringFromSerializeMappings decode bs (sort_key generatedColumn m))"
proof (induction xs arbitrary: hints)
  case Nil
  then show ?case by simp
next
  case (Cons x xs)
  from Cons.IH [OF Cons.prems [simplified]] show ?case
  proof
    assume "(k, v) \<in> set (moduleBody decode bs x hints)"
    then show ?thesis
      by (cases x) (auto simp: moduleBody_def assignHint_def Let_def split: if_splits dest: set_property_mem)
  next
    assume "\<exists>m. (k, m) \<in> set xs \<and> v = getStringFromSerializeMappings decode bs (sort_key generatedColumn m)"
    then show ?thesis by auto
  qed
qed

lemma getSourceMappings_mem:
  assumes "(k, v) \<in> set (getSourceMappings decode code ms formatter)"
  shows "entriesOf formatter ms k \<noteq> [] \<and>
         v = getStringFromSerializeMappings decode (splitBytesByNewLine code)
               (sort_key generatedColumn (entriesOf formatter ms k))"
proof -
  from assms have "(k, v) \<in> set (fold (moduleBody decode (splitBytesByNewLine code))
                (for_in array_index (mappingWithId formatter ms)) [])"
    by (simp add: getSourceMappings_def)
  from fold_moduleBody_mem [OF this] obtain m where
    m: "(k, m) \<in> set (mappingWithId formatter ms)"
    and v: "v = getStringFromSerializeMappings decode (splitBytesByNewLine code) (sort_key generatedColumn m)"
    by (auto simp: set_for_in)
  from mappingWithId_groups [OF m] v show ?thesis by auto
qed

lemma getString_Nil: "getStringFromSerializeMappings decode bs [] = []"
  by (simp add: getStringFromSerializeMappings_def maapingWithLine_def for_in_def)

section \<open>getSourceMappings\<close>

text \<open>
  Claim C8. \<open>splitBytesByNewLine\<close> splits exactly at the line feeds: no segment contains
  \<open>0x0A\<close>, and the segments joined by single line feeds give back the input, up to one
  line feed at the end of the input, which is not reproduced. The text of every module of a
  chunk is reconstructed from that one split of the chunk's bytes.
\<close>

theorem splitBytesByNewLine_lines:
  "(\<forall>seg \<in> set (splitBytesByNewLine bs). 0x0A \<notin> set seg)
   \<and> bs = joinLines (splitBytesByNewLine bs) @ (if bs \<noteq> [] \<and> last bs = 0x0A then [0x0A] else [])
   \<and> (\<forall>p \<in> set (getSourceMappings decode bs ms formatter).
         \<exists>m. (fst p, m) \<in> set (mappingWithId formatter ms)
           \<and> snd p = getStringFromSerializeMappings decode (splitBytesByNewLine bs)
                       (sort_key generatedColumn m))"
proof (intro conjI ballI)
  fix seg assume "seg \<in> set (splitBytesByNewLine bs)"
  then show "0x0A \<notin> set seg"
    using splitFrom_no_newline [of "[]" seg bs] by (simp add: splitBytesByNewLine_splitFrom)
next
  show "bs = joinLines (splitBytesByNewLine bs) @ (if bs \<noteq> [] \<and> last bs = 0x0A then [0x0A] else [])"
    using splitFrom_join [of "[]" bs] by (simp add: splitBytesByNewLine_splitFrom)
next
  fix p assume "p \<in> set (getSourceMappings decode bs ms formatter)"
  then have "(fst p, snd p) \<in> set (fold (moduleBody decode (splitBytesByNewLine bs))
                (for_in array_index (mappingWithId formatter ms)) [])"
    by (simp add: getSourceMappings_def)
  from fold_moduleBody_mem [OF this]
  show "\<exists>m. (fst p, m) \<in> set (mappingWithId formatter ms)
           \<and> snd p = getStringFromSerializeMappings decode (splitBytesByNewLine bs)
                       (sort_key generatedColumn m)"
    by (simp add: set_for_in)
qed

theorem splitBytesByNewLine_lines_witness:
  "splitBytesByNewLine (bytes_of ''ab\<newline>cd\<newline>\<newline>'') = [bytes_of ''ab'', bytes_of ''cd'', []]
   \<and> joinLines [bytes_of ''ab'', bytes_of ''cd'', []] @ [0x0A] = bytes_of ''ab\<newline>cd\<newline>\<newline>''"
  using splitBytesByNewLine_lines [of "bytes_of ''ab\<newline>cd\<newline>\<newline>''" decode_ascii "[]" id]
  by (simp add: splitBytesByNewLine_splitFrom bytes_of_def)

text \<open>
  Claim C3. A module without mapping entries has the empty reconstructed text, of size 0,
  and the record returned by \<open>getSourceMappings\<close> has no key for it.
\<close>

theorem no_entries_no_hint:
  "entriesOf formatter ms k = [] \<Longrightarrow>
     getStringFromSerializeMappings decode (splitBytesByNewLine code) (entriesOf formatter ms k) = []
     \<and> length (getStringFromSerializeMappings decode (splitBytesByNewLine code) (entriesOf formatter ms k)) = 0
     \<and> k \<notin> fst ` set (getSourceMappings decode code ms formatter)"
  using getSourceMappings_mem [of k _ decode code ms formatter]
  by (auto simp: getString_Nil)

theorem no_entries_no_hint_witness:
  "entriesOf id [loc ''a.ts'' 1 0 None] ''b.ts'' = []
   \<and> ''b.ts'' \<notin> fst ` set (getSourceMappings decode_ascii (bytes_of ''abc'') [loc ''a.ts'' 1 0 None] id)"
proof -
  have h: "entriesOf id [loc ''a.ts'' 1 0 None] ''b.ts'' = []"
    by (simp add: entriesOf_def moduleKey_def loc_def)
  from no_entries_no_hint [OF h] h show ?thesis by blast
qed

text \<open>
  Claim C5. A mapping without a source is dropped by the decoder: it is in the entry list
  of no module id, and the reconstructed texts are those of the source map without such
  mappings.
\<close>

theorem sourceless_entries_dropped:
  "(\<forall>p \<in> set (mappingWithId formatter ms). \<forall>m \<in> set (snd p). source m \<noteq> None)
   \<and> mappingWithId formatter ms = mappingWithId formatter (filter (\<lambda>m. source m \<noteq> None) ms)
   \<and> getSourceMappings decode code ms formatter
       = getSourceMappings decode code (filter (\<lambda>m. source m \<noteq> None) ms) formatter"
proof -
  have a: "\<forall>p \<in> set (mappingWithId formatter ms). \<forall>m \<in> set (snd p). source m \<noteq> None"
  proof (intro ballI)
    fix p m assume "p \<in> set (mappingWithId formatter ms)" "m \<in> set (snd p)"
    with mappingWithId_groups [of "fst p" "snd p" formatter ms]
    have "m \<in> set (entriesOf formatter ms (fst p))" by simp
    then show "source m \<noteq> None"
      by (auto simp: entriesOf_def moduleKey_def split: option.splits)
  qed
  have "filter (\<lambda>m. moduleKey formatter m \<noteq> None) (filter (\<lambda>m. source m \<noteq> None) ms)
        = filter (\<lambda>m. moduleKey formatter m \<noteq> None) ms"
    unfolding filter_filter by (rule filter_cong) (auto simp: moduleKey_def split: option.splits)
  then have b: "mappingWithId formatter ms = mappingWithId formatter (filter (\<lambda>m. source m \<noteq> None) ms)"
    by (simp add: mappingWithId_def mappingWithId_fold)
  have c: "getSourceMappings decode code ms formatter
       = getSourceMappings decode code (filter (\<lambda>m. source m \<noteq> None) ms) formatter"
    by (simp only: getSourceMappings_def b [symmetric])
  from a b c show ?thesis by blast
qed

theorem sourceless_entries_dropped_witness:
  "mappingWithId id [loc ''a.ts'' 1 0 None, (loc [] 1 2 None)\<lparr>source := None\<rparr>]
   = [(''a.ts'', [loc ''a.ts'' 1 0 None])]"
  using sourceless_entries_dropped
    [of id "[loc ''a.ts'' 1 0 None, (loc [] 1 2 None)\<lparr>source := None\<rparr>]" decode_ascii "[]"]
  by (simp add: mappingWithId_def eachMappingCallback_def loc_def)

text \<open>
  The record returned lists its keys in their enumeration order: their order of creation
  is already the order in which \<^verbatim>\<open>for (const id in hints)\<close> visits them.
\<close>

lemma set_property_fresh:
  "k \<notin> fst ` set acc \<Longrightarrow> set_property k v acc = acc @ [(k, v)]"
  by (induction acc) auto

lemma fold_moduleBody_closed:
  assumes "distinct (map fst xs)" and "fst ` set xs \<inter> fst ` set acc = {}"
    and "\<forall>p \<in> set xs. snd p \<noteq> []"
  shows "fold (moduleBody decode bs) xs acc
         = acc @ map (\<lambda>p. (fst p, getStringFromSerializeMappings decode bs
                                       (sort_key generatedColumn (snd p))))
                   (filter (\<lambda>p. fst p \<noteq> ''__proto__'') xs)"
  using assms
proof (induction xs arbitrary: acc)
  case Nil
  then show ?case by simp
next
  case (Cons x xs)
  let ?v = "getStringFromSerializeMappings decode bs (sort_key generatedColumn (snd x))"
  from Cons.prems(3) have ne: "sort_key generatedColumn (snd x) \<noteq> []"
    by (metis length_sort list.set_intros(1) length_0_conv)
  from Cons.prems(2) have fresh: "fst x \<notin> fst ` set acc" by auto
  show ?case
  proof (cases "fst x = ''__proto__''")
    case True
    with ne have "moduleBody decode bs x acc = acc"
      by (simp add: moduleBody_def assignHint_def Let_def)
    moreover from Cons.prems have "fst ` set xs \<inter> fst ` set acc = {}" by auto
    ultimately show ?thesis using Cons.IH [of acc] Cons.prems True by simp
  next
    case False
    with ne fresh have mb: "moduleBody decode bs x acc = acc @ [(fst x, ?v)]"
      by (simp add: moduleBody_def assignHint_def Let_def set_property_fresh)
    from Cons.prems have "fst ` set xs \<inter> fst ` set (acc @ [(fst x, ?v)]) = {}"
      by (auto simp: image_iff)
    with Cons.IH [of "acc @ [(fst x, ?v)]"] Cons.prems mb False show ?thesis by simp
  qed
qed

lemma mappingWithId_distinct: "distinct (map fst (mappingWithId formatter ms))"
  unfolding mappingWithId_def mappingWithId_fold by (rule fold_push_distinct) simp

lemma distinct_for_in: "distinct (map fst obj) \<Longrightarrow> distinct (map fst (for_in idx obj))"
  by (auto simp: for_in_def distinct_map inj_on_def)

lemma getSourceMappings_closed:
  "getSourceMappings decode code ms formatter
   = map (\<lambda>p. (fst p, getStringFromSerializeMappings decode (splitBytesByNewLine code)
                         (sort_key generatedColumn (snd p))))
       (filter (\<lambda>p. fst p \<noteq> ''__proto__'') (for_in array_index (mappingWithId formatter ms)))"
proof -
  have "\<forall>p \<in> set (for_in array_index (mappingWithId formatter ms)). snd p \<noteq> []"
  proof
    fix p assume "p \<in> set (for_in array_index (mappingWithId formatter ms))"
    then have "(fst p, snd p) \<in> set (mappingWithId formatter ms)" by (simp add: set_for_in)
    from mappingWithId_groups [OF this] show "snd p \<noteq> []" by blast
  qed
  with fold_moduleBody_closed [of "for_in array_index (mappingWithId formatter ms)" "[]"
      decode "splitBytesByNewLine code"]
  show ?thesis
    by (simp add: getSourceMappings_def distinct_for_in mappingWithId_distinct)
qed

lemma for_in_fixpoint:
  assumes "\<forall>p \<in> set xs. idx (fst p) \<noteq> None" and "\<forall>p \<in> set ys. idx (fst p) = None"
    and "sorted (map (\<lambda>p. the (idx (fst p))) xs)"
  shows "for_in idx (xs @ ys) = xs @ ys"
proof -
  from assms(1) have 1: "filter (\<lambda>p. idx (fst p) \<noteq> None) xs = xs"
    and 2: "filter (\<lambda>p. idx (fst p) = None) xs = []"
    by (auto simp: filter_id_conv filter_empty_conv)
  from assms(2) have 3: "filter (\<lambda>p. idx (fst p) \<noteq> None) ys = []"
    and 4: "filter (\<lambda>p. idx (fst p) = None) ys = ys"
    by (auto simp: filter_id_conv filter_empty_conv)
  show ?thesis
    unfolding for_in_def filter_append 1 2 3 4
    by (simp add: sort_key_id_if_sorted [OF assms(3)])
qed

lemma for_in_map_filter:
  assumes "\<And>p. fst (g p) = fst p"
  shows "for_in idx (map g (filter Q (for_in idx obj))) = map g (filter Q (for_in idx obj))"
proof -
  let ?I = "sort_key (\<lambda>p. the (idx (fst p))) (filter (\<lambda>p. idx (fst p) \<noteq> None) obj)"
  let ?N = "filter (\<lambda>p. idx (fst p) = None) obj"
  have "sorted (map (\<lambda>p. the (idx (fst p))) (filter Q ?I))"
    by (intro sorted_filter sorted_sort_key)
  then have "sorted (map (\<lambda>p. the (idx (fst p))) (map g (filter Q ?I)))"
    by (simp add: comp_def assms)
  then have "for_in idx (map g (filter Q ?I) @ map g (filter Q ?N)) = map g (filter Q ?I) @ map g (filter Q ?N)"
    by (intro for_in_fixpoint) (auto simp: assms)
  then show ?thesis by (simp add: for_in_def)
qed

lemma getSourceMappings_enumeration:
  "for_in array_index (getSourceMappings decode code ms formatter)
   = getSourceMappings decode code ms formatter"
  unfolding getSourceMappings_closed by (rule for_in_map_filter) simp

section \<open>getStringFromSerializeMappings\<close>

subsection \<open>The loops and their trace\<close>

lemma entriesLoop_contribs:
  "entriesLoop runes cap es s = s @ concat (map snd (entryContribs runes cap es))"
  by (induction es arbitrary: s) simp_all

lemma fst_entryContribs: "map fst (entryContribs runes cap es) = es"
  by (induction es) simp_all

lemma lineBody_contribs:
  "lineBody decode bs g s = s @ concat (map snd (lineContribs decode bs g))"
  by (simp add: lineBody_def lineContribs_def Let_def entriesLoop_contribs comp_def)

lemma fst_lineContribs: "map fst (lineContribs decode bs g) = snd g"
  by (simp add: lineContribs_def Let_def fst_entryContribs comp_def)

lemma fold_lineBody_contribs:
  "fold (lineBody decode bs) gs s = s @ concat (map snd (concat (map (lineContribs decode bs) gs)))"
  by (induction gs arbitrary: s) (simp_all add: lineBody_contribs)

lemma getString_contributions:
  "getStringFromSerializeMappings decode bs ms = concat (map snd (contributions decode bs ms))"
  by (simp add: getStringFromSerializeMappings_def contributions_def fold_lineBody_contribs)

lemma fst_contributions:
  "map fst (contributions decode bs ms) = concat (map snd (for_in line_index (maapingWithLine ms)))"
  by (simp add: contributions_def map_concat comp_def fst_lineContribs)

lemma maapingWithLine_groups:
  "(k, vs) \<in> set (maapingWithLine ms) \<Longrightarrow> vs = filter (\<lambda>m. generatedLine m = k) ms \<and> vs \<noteq> []"
  unfolding maapingWithLine_def by (rule fold_push_groups)

lemma maapingWithLine_distinct: "distinct (map fst (maapingWithLine ms))"
  unfolding maapingWithLine_def by (rule fold_push_distinct) simp

subsection \<open>The visits are a rearrangement of the entries\<close>

lemma mset_concat_map_cong:
  "mset xs = mset ys \<Longrightarrow> mset (concat (map f xs)) = mset (concat (map f ys))"
proof -
  assume a: "mset xs = mset ys"
  have "\<And>zs. mset (concat (map f zs)) = sum_mset (image_mset (\<lambda>z. mset (f z)) (mset zs))"
    by (induct_tac zs) simp_all
  with a show ?thesis by simp
qed

lemma mset_for_in: "mset (for_in idx obj) = mset obj"
  by (simp add: for_in_def)

lemma mset_push_entry:
  "mset (concat (map snd (push_entry k v acc))) = add_mset v (mset (concat (map snd acc)))"
  by (induction acc) auto

lemma mset_fold_push:
  "mset (concat (map snd (fold (\<lambda>x. push_entry (kf x) x) xs acc)))
   = mset (concat (map snd acc)) + mset xs"
  by (induction xs arbitrary: acc) (simp_all add: mset_push_entry)

lemma mset_visited:
  "mset (concat (map snd (for_in line_index (maapingWithLine ms)))) = mset ms"
proof -
  have "mset (concat (map snd (for_in line_index (maapingWithLine ms))))
        = mset (concat (map snd (maapingWithLine ms)))"
    by (rule mset_concat_map_cong) (rule mset_for_in)
  then show ?thesis
    by (simp add: maapingWithLine_def mset_fold_push)
qed

subsection \<open>The order of the visits\<close>

lemma sorted_same_line:
  "\<forall>m \<in> set vs. generatedLine m = k \<Longrightarrow> sorted (map generatedColumn vs)
   \<Longrightarrow> sorted (map lineColumn vs)"
  by (induction vs) (auto simp: lineColumn_def less_eq_prod_def)

lemma sorted_groups:
  "sorted_wrt (<) (map fst gs) \<Longrightarrow>
   \<forall>g \<in> set gs. (\<forall>m \<in> set (snd g). generatedLine m = fst g) \<and> sorted (map generatedColumn (snd g))
   \<Longrightarrow> sorted (map lineColumn (concat (map snd gs)))"
proof (induction gs)
  case Nil
  then show ?case by simp
next
  case (Cons g gs)
  from Cons.prems have 1: "sorted (map lineColumn (snd g))"
    by (intro sorted_same_line [of _ "fst g"]) simp_all
  from Cons.prems have 2: "sorted (map lineColumn (concat (map snd gs)))"
    by (intro Cons.IH) simp_all
  have 3: "lineColumn x \<le> lineColumn y"
    if "x \<in> set (snd g)" "y \<in> set (concat (map snd gs))" for x y
  proof -
    from that(2) obtain g' where g': "g' \<in> set gs" "y \<in> set (snd g')" by auto
    with Cons.prems have "fst g < fst g'" by auto
    moreover from Cons.prems that(1) have "generatedLine x = fst g" by simp
    moreover from Cons.prems g' have "generatedLine y = fst g'" by simp
    ultimately show ?thesis by (simp add: lineColumn_def less_eq_prod_def)
  qed
  from 3 have "\<forall>a \<in> set (map lineColumn (snd g)).
      \<forall>b \<in> set (map lineColumn (concat (map snd gs))). a \<le> b"
    by auto
  with 1 2 show ?case by (simp add: sorted_append)
qed

lemma for_in_all_index:
  assumes "\<forall>p \<in> set obj. idx (fst p) = Some (fst p)" and "distinct (map fst obj)"
  shows "sorted_wrt (<) (map fst (for_in idx obj))"
proof -
  from assms(1) have f: "filter (\<lambda>p. idx (fst p) \<noteq> None) obj = obj"
    and n: "filter (\<lambda>p. idx (fst p) = None) obj = []"
    by (auto simp: filter_empty_conv)
  let ?s = "sort_key (\<lambda>p. the (idx (fst p))) obj"
  have eq: "map (\<lambda>p. the (idx (fst p))) ?s = map fst ?s"
    using assms(1) by (intro map_cong) auto
  have "sorted (map (\<lambda>p. the (idx (fst p))) ?s)"
    by (rule sorted_sort_key)
  then have "sorted (map fst ?s)" unfolding eq .
  moreover from assms(2) have "distinct (map fst ?s)"
    by (simp add: distinct_map)
  ultimately have "sorted_wrt (<) (map fst ?s)"
    by (simp add: strict_sorted_iff)
  then show ?thesis
    unfolding for_in_def f n by simp
qed

lemma visited_sorted:
  assumes "\<forall>m \<in> set ms. generatedLine m < 4294967295" and "sorted (map generatedColumn ms)"
  shows "sorted (map lineColumn (concat (map snd (for_in line_index (maapingWithLine ms)))))"
proof (rule sorted_groups)
  show "sorted_wrt (<) (map fst (for_in line_index (maapingWithLine ms)))"
  proof (rule for_in_all_index)
    show "\<forall>p \<in> set (maapingWithLine ms). line_index (fst p) = Some (fst p)"
    proof
      fix p assume "p \<in> set (maapingWithLine ms)"
      with maapingWithLine_groups [of "fst p" "snd p" ms]
      have "filter (\<lambda>m. generatedLine m = fst p) ms \<noteq> []" by auto
      then obtain m where "m \<in> set ms" "generatedLine m = fst p"
        by (auto simp: filter_empty_conv)
      with assms(1) show "line_index (fst p) = Some (fst p)"
        by (auto simp: line_index_def)
    qed
  qed (rule maapingWithLine_distinct)
next
  show "\<forall>g \<in> set (for_in line_index (maapingWithLine ms)).
          (\<forall>m \<in> set (snd g). generatedLine m = fst g) \<and> sorted (map generatedColumn (snd g))"
  proof
    fix g assume "g \<in> set (for_in line_index (maapingWithLine ms))"
    then have "(fst g, snd g) \<in> set (maapingWithLine ms)" by (simp add: set_for_in)
    from maapingWithLine_groups [OF this]
    have "snd g = filter (\<lambda>m. generatedLine m = fst g) ms" by simp
    with assms(2) show "(\<forall>m \<in> set (snd g). generatedLine m = fst g) \<and> sorted (map generatedColumn (snd g))"
      by (metis (mono_tags, lifting) mem_Collect_eq set_filter sorted_filter)
  qed
qed

subsection \<open>Entries on lines that the artifact does not have\<close>

lemma for_in_filter:
  "for_in idx (filter R obj) = filter R (for_in idx obj)"
  by (simp add: for_in_def filter_sort conj_commute)

lemma fold_lineBody_filter:
  "fold (lineBody decode bs) (filter (\<lambda>g. fst g \<le> length bs) gs) s = fold (lineBody decode bs) gs s"
  by (induction gs arbitrary: s) (auto simp: lineBody_def Let_def)

lemma maapingWithLine_filter:
  "maapingWithLine (filter (\<lambda>m. Q (generatedLine m)) ms) = filter (\<lambda>g. Q (fst g)) (maapingWithLine ms)"
  using fold_push_filter [of Q generatedLine ms "[]"] by (simp add: maapingWithLine_def)

lemma contributions_missing_line:
  assumes p: "p \<in> set (contributions decode bs ms)" and far: "length bs < generatedLine (fst p)"
  shows "snd p = []"
proof -
  from p obtain g where g: "g \<in> set (maapingWithLine ms)" and pg: "p \<in> set (lineContribs decode bs g)"
    by (auto simp: contributions_def set_for_in)
  from pg have "fst p \<in> set (map fst (lineContribs decode bs g))" by simp
  then have "fst p \<in> set (snd g)" by (simp add: fst_lineContribs)
  with maapingWithLine_groups [of "fst g" "snd g" ms] g have "generatedLine (fst p) = fst g" by auto
  with far have "\<not> (int (fst g) - 1 < int (length bs))" by simp
  with pg show "snd p = []" by (auto simp: lineContribs_def Let_def)
qed

lemma filter_groups:
  "\<forall>g \<in> set gs. \<forall>m \<in> set (snd g). generatedLine m = fst g \<Longrightarrow>
   filter (\<lambda>m. Q (generatedLine m)) (concat (map snd gs))
   = concat (map snd (filter (\<lambda>g. Q (fst g)) gs))"
proof (induction gs)
  case Nil
  then show ?case by simp
next
  case (Cons g gs)
  have "filter (\<lambda>m. Q (generatedLine m)) (snd g) = (if Q (fst g) then snd g else [])"
    using Cons.prems by (auto simp: filter_empty_conv filter_id_conv)
  with Cons show ?case by simp
qed

lemma visited_filter:
  "filter (\<lambda>m. Q (generatedLine m)) (concat (map snd (for_in line_index (maapingWithLine ms))))
   = concat (map snd (for_in line_index (maapingWithLine (filter (\<lambda>m. Q (generatedLine m)) ms))))"
proof -
  have "\<forall>g \<in> set (for_in line_index (maapingWithLine ms)). \<forall>m \<in> set (snd g). generatedLine m = fst g"
  proof
    fix g assume "g \<in> set (for_in line_index (maapingWithLine ms))"
    then have "(fst g, snd g) \<in> set (maapingWithLine ms)" by (simp add: set_for_in)
    from maapingWithLine_groups [OF this] show "\<forall>m \<in> set (snd g). generatedLine m = fst g"
      by (metis (mono_tags, lifting) mem_Collect_eq set_filter)
  qed
  then show ?thesis
    by (simp add: filter_groups [of _ Q] maapingWithLine_filter [of Q] for_in_filter)
qed

lemma existing_lines_sorted:
  assumes "length bs < 4294967295" and "sorted (map generatedColumn ms)"
  shows "sorted (map (\<lambda>p. lineColumn (fst p))
           (filter (\<lambda>p. generatedLine (fst p) \<le> length bs) (contributions decode bs ms)))"
proof -
  let ?Q = "\<lambda>n. n \<le> length bs"
  have "map fst (filter (\<lambda>p. generatedLine (fst p) \<le> length bs) (contributions decode bs ms))
        = filter (\<lambda>m. ?Q (generatedLine m)) (map fst (contributions decode bs ms))"
    by (simp add: filter_map comp_def)
  also have "\<dots> = concat (map snd (for_in line_index
                 (maapingWithLine (filter (\<lambda>m. ?Q (generatedLine m)) ms))))"
    unfolding fst_contributions by (rule visited_filter)
  finally have eq: "map fst (filter (\<lambda>p. generatedLine (fst p) \<le> length bs) (contributions decode bs ms))
        = concat (map snd (for_in line_index
                 (maapingWithLine (filter (\<lambda>m. generatedLine m \<le> length bs) ms))))" .
  have "sorted (map lineColumn (concat (map snd (for_in line_index
                 (maapingWithLine (filter (\<lambda>m. generatedLine m \<le> length bs) ms))))))"
    using assms by (intro visited_sorted) (auto simp: sorted_filter)
  then have "sorted (map lineColumn
      (map fst (filter (\<lambda>p. generatedLine (fst p) \<le> length bs) (contributions decode bs ms))))"
    unfolding eq .
  then show ?thesis by (simp add: comp_def)
qed

lemmas eval_defs = getStringFromSerializeMappings_def maapingWithLine_def for_in_def line_index_def
  lineBody_def entryText_def substring_def substring_from_def clampIndex_def loc_def bytes_of_def
  str_def decode_ascii_def contributions_def lineContribs_def lineColumn_def

text \<open>
  Claim C6. The text of a module is the concatenation of the texts of its entries in the
  order of the loops' visits; the visits are a rearrangement of the module's entries, in
  whatever order the source map has them; and the entries on lines that the artifact has
  are visited in ascending order of line and, within a line, of column (the others add
  nothing). The artifact is taken to have fewer than \<open>2^32 - 1\<close> lines, the range of array
  indices.
\<close>

theorem line_then_column_order:
  "(ms \<noteq> [] \<longrightarrow>
      moduleBody decode bs (k, ms) hints
        = assignHint k (concat (map snd (contributions decode bs (sort_key generatedColumn ms))))
            hints)
   \<and> getStringFromSerializeMappings decode bs (sort_key generatedColumn ms)
     = concat (map snd (contributions decode bs (sort_key generatedColumn ms)))
   \<and> mset (map fst (contributions decode bs (sort_key generatedColumn ms))) = mset ms
   \<and> (\<forall>p \<in> set (contributions decode bs (sort_key generatedColumn ms)).
         length bs < generatedLine (fst p) \<longrightarrow> snd p = [])
   \<and> (length bs < 4294967295 \<longrightarrow>
        sorted (map (\<lambda>p. lineColumn (fst p))
          (filter (\<lambda>p. generatedLine (fst p) \<le> length bs)
             (contributions decode bs (sort_key generatedColumn ms)))))
   \<and> ((\<forall>m \<in> set ms. generatedLine m < 4294967295) \<longrightarrow>
        sorted (map (\<lambda>p. lineColumn (fst p)) (contributions decode bs (sort_key generatedColumn ms))))"
proof (intro conjI impI ballI)
  assume "ms \<noteq> []"
  then have "sort_key generatedColumn ms \<noteq> []"
    by (metis length_sort length_0_conv)
  then show "moduleBody decode bs (k, ms) hints
        = assignHint k (concat (map snd (contributions decode bs (sort_key generatedColumn ms))))
            hints"
    by (simp add: moduleBody_def getString_contributions)
next
  show "getStringFromSerializeMappings decode bs (sort_key generatedColumn ms)
     = concat (map snd (contributions decode bs (sort_key generatedColumn ms)))"
    by (rule getString_contributions)
  show "mset (map fst (contributions decode bs (sort_key generatedColumn ms))) = mset ms"
    by (simp add: fst_contributions mset_visited)
next
  fix p assume "p \<in> set (contributions decode bs (sort_key generatedColumn ms))"
    and "length bs < generatedLine (fst p)"
  then show "snd p = []" by (rule contributions_missing_line)
next
  assume "length bs < 4294967295"
  then show "sorted (map (\<lambda>p. lineColumn (fst p))
          (filter (\<lambda>p. generatedLine (fst p) \<le> length bs)
             (contributions decode bs (sort_key generatedColumn ms))))"
    by (rule existing_lines_sorted) (rule sorted_sort_key)
next
  assume "\<forall>m \<in> set ms. generatedLine m < 4294967295"
  then have "sorted (map lineColumn (map fst (contributions decode bs (sort_key generatedColumn ms))))"
    unfolding fst_contributions by (intro visited_sorted) (simp_all add: sorted_sort_key)
  then show "sorted (map (\<lambda>p. lineColumn (fst p)) (contributions decode bs (sort_key generatedColumn ms)))"
    by (simp add: comp_def)
qed

theorem line_then_column_order_witness:
  "map (\<lambda>p. lineColumn (fst p))
     (contributions decode_ascii [bytes_of ''abcdefghij'', bytes_of ''xyz'']
        (sort_key generatedColumn [loc ''m'' 2 1 None, loc ''m'' 1 5 None, loc ''m'' 1 0 (Some 4)]))
   = [(1, 0), (1, 5), (2, 1)]
   \<and> getStringFromSerializeMappings decode_ascii [bytes_of ''abcdefghij'', bytes_of ''xyz'']
        (sort_key generatedColumn [loc ''m'' 2 1 None, loc ''m'' 1 5 None, loc ''m'' 1 0 (Some 4)])
     = str ''abcdefghijyz''"
  using line_then_column_order
    [of "[loc ''m'' 2 1 None, loc ''m'' 1 5 None, loc ''m'' 1 0 (Some 4)]" decode_ascii
        "[bytes_of ''abcdefghij'', bytes_of ''xyz'']" "''m''" "[]"]
  by (simp add: eval_defs)

text \<open>
  Claim C4. An entry on a line beyond the last line of the artifact adds no text, the
  function still returns, and the result is the one obtained from the entries on the
  lines that exist.
\<close>

theorem missing_line_skipped:
  "(\<forall>p \<in> set (contributions decode bs ms). length bs < generatedLine (fst p) \<longrightarrow> snd p = [])
   \<and> getStringFromSerializeMappings decode bs ms = concat (map snd (contributions decode bs ms))
   \<and> getStringFromSerializeMappings decode bs ms
       = getStringFromSerializeMappings decode bs (filter (\<lambda>m. generatedLine m \<le> length bs) ms)"
proof (intro conjI ballI impI)
  fix p assume "p \<in> set (contributions decode bs ms)" and "length bs < generatedLine (fst p)"
  then show "snd p = []" by (rule contributions_missing_line)
next
  show "getStringFromSerializeMappings decode bs ms = concat (map snd (contributions decode bs ms))"
    by (rule getString_contributions)
next
  show "getStringFromSerializeMappings decode bs ms
       = getStringFromSerializeMappings decode bs (filter (\<lambda>m. generatedLine m \<le> length bs) ms)"
    by (simp add: getStringFromSerializeMappings_def
        maapingWithLine_filter [of "\<lambda>n. n \<le> length bs"] for_in_filter fold_lineBody_filter)
qed

theorem missing_line_skipped_witness:
  "contributions decode_ascii [bytes_of ''abc''] [loc ''m'' 3 0 None, loc ''m'' 1 2 None]
     = [(loc ''m'' 1 2 None, str ''c''), (loc ''m'' 3 0 None, [])]
   \<and> getStringFromSerializeMappings decode_ascii [bytes_of ''abc'']
        [loc ''m'' 3 0 None, loc ''m'' 1 2 None] = str ''c''"
  using missing_line_skipped [of decode_ascii "[bytes_of ''abc'']"
      "[loc ''m'' 3 0 None, loc ''m'' 1 2 None]"]
  by (simp add: eval_defs)

subsection \<open>The end of an entry's range\<close>

lemma entryText_rest_of_line:
  "cap = 1 \<or> lastGeneratedColumn cur = None \<Longrightarrow>
   entryText runes cap cur nxt = substring_from runes (generatedColumn cur)"
  by (simp add: entryText_def)

lemma entryText_adjacent:
  "cap \<noteq> 1 \<Longrightarrow> lastGeneratedColumn cur = Some lastCol \<Longrightarrow> generatedColumn n = lastCol + 1 \<Longrightarrow>
   entryText runes cap cur (Some n) = substring runes (generatedColumn cur) (generatedColumn n)"
  by (simp add: entryText_def)

lemma entryText_not_adjacent:
  "cap \<noteq> 1 \<Longrightarrow> lastGeneratedColumn cur = Some lastCol \<Longrightarrow>
   map_option generatedColumn nxt \<noteq> Some (lastCol + 1) \<Longrightarrow>
   entryText runes cap cur nxt = substring runes (generatedColumn cur) lastCol"
  by (cases nxt) (auto simp: entryText_def)

lemma substring_excludes_stop:
  "0 \<le> a \<Longrightarrow> a \<le> b \<Longrightarrow> b \<le> int (length s) \<Longrightarrow> substring s a b = take (nat b - nat a) (drop (nat a) s)"
  by (simp add: substring_def clampIndex_def Let_def min_def max_def)

text \<open>
  Claim C1. On the line \<open>abcdefghij\<close> with the entries A (column 0, last column 4) and
  B (column 5, last column 9), the code gives \<open>abcde\<close> for A and \<open>fghi\<close> for B: the
  character at column 9 is missing from the text of the module.
\<close>

theorem boundary_example_drops_column_9:
  "contributions decode_ascii [bytes_of ''abcdefghij'']
      [loc ''m'' 1 0 (Some 4), loc ''m'' 1 5 (Some 9)]
    = [(loc ''m'' 1 0 (Some 4), str ''abcde''), (loc ''m'' 1 5 (Some 9), str ''fghi'')]
   \<and> getStringFromSerializeMappings decode_ascii [bytes_of ''abcdefghij'']
      [loc ''m'' 1 0 (Some 4), loc ''m'' 1 5 (Some 9)] = str ''abcdefghi''"
  by (simp add: eval_defs)

text \<open>The same example through \<open>getSourceMappings\<close>.\<close>

lemma boundary_example_hints:
  "getSourceMappings decode_ascii (bytes_of ''abcdefghij'')
      [loc ''m'' 1 0 (Some 4), loc ''m'' 1 5 (Some 9)] id = [(''m'', str ''abcdefghi'')]"
  by (simp add: getSourceMappings_def splitBytesByNewLine_splitFrom mappingWithId_def
      eachMappingCallback_def moduleBody_def assignHint_def array_index_def is_digit_def eval_defs)

text \<open>
  Claim C2. For an entry with a last column that is not followed by an entry at the next
  column, the range ends before the last column: on \<open>abcdefghij\<close>, the entry at column 0
  with last column 2, followed by an entry at column 5, gives \<open>ab\<close>, without the
  character at column 2.
\<close>

theorem last_column_excluded_example:
  "contributions decode_ascii [bytes_of ''abcdefghij'']
      [loc ''m'' 1 0 (Some 2), loc ''m'' 1 5 None]
    = [(loc ''m'' 1 0 (Some 2), str ''ab''), (loc ''m'' 1 5 None, str ''fghij'')]
   \<and> str ''ab'' \<noteq> str ''abc''"
  by (simp add: eval_defs)

section \<open>Report files\<close>

lemma livingServer_callCount: "callCount (snd (livingServer opts st)) = callCount st"
  by (simp add: livingServer_def Let_def)




lemma closeBundle_files_static:
  "analyzerMode opts = Static \<Longrightarrow>
   files (snd (closeBundle pathJoin defaultWd opts st)) = files st
   \<and> pending (snd (closeBundle pathJoin defaultWd opts st))
     = insert (the (fst (fst (closeBundle pathJoin defaultWd opts st)))) (pending st)"
  by (auto simp: closeBundle_def Let_def livingServer_def split: prod.splits)


subsection \<open>Different counter values give different names\<close>








subsection \<open>The name of the report\<close>




text \<open>
  In static mode the write is not awaited: a second run that starts before the first
  run's file has reached the disk chooses the same path.
\<close>

lemma static_runs_same_path:
  "fst (fst (closeBundle joinPlain ''dist''
        \<lparr>analyzerMode = Static, fileName = None, openAnalyzer = None, analyzerPort = None\<rparr>
        (snd (closeBundle joinPlain ''dist''
           \<lparr>analyzerMode = Static, fileName = None, openAnalyzer = None, analyzerPort = None\<rparr>
           \<lparr>callCount = 0, files = {}, pending = {}\<rparr>))))
     = Some ''dist/stats.html''
   \<and> fst (fst (closeBundle joinPlain ''dist''
        \<lparr>analyzerMode = Static, fileName = None, openAnalyzer = None, analyzerPort = None\<rparr>
        \<lparr>callCount = 0, files = {}, pending = {}\<rparr>))
     = Some ''dist/stats.html''"
  by (simp add: closeBundle_def Let_def joinPlain_def)

end
